theory Spec2Isabelle
  imports Main "HOL-Library.Monad_Syntax" "HOL-Library.Signed_Division" "HOL-Library.Word"
begin

section \<open>The broadcast benchmark \<open>bcast_skeleton.c\<close>\<close>

text \<open>
  The program is one \<open>main\<close> function run by every process of an MPI group. The model
  follows one process through it: a rank executes MPI calls one after the other, and the
  state it carries is the variable \<open>chunk_size\<close>, its request handles and the calls
  issued so far. Every call is taken to return once the library has accepted its
  arguments: what the peers do is not part of the state of a rank.

  C's \<open>int\<close> is modelled by \<open>int\<close>; \<open>/\<close> and \<open>%\<close> are C's truncating operators \<open>sdiv\<close>
  and \<open>smod\<close>. Signed overflow, which C leaves undefined, has no branch of its own: with a
  chunk size of at least 1 the offset \<open>j\<close> stays between 0 and the buffer length, and
  the ranks computed are at most twice the group size.
\<close>

definition NUM_BYTES :: int where
  "NUM_BYTES = 100000000"

subsection \<open>MPI calls, request handles and what the library rejects\<close>

text \<open>
  The arguments kept are the ones that vary in the program: the offset into \<open>buffer\<close>,
  the count, the peer rank and, for a non-blocking send, the index of the request
  variable that receives the handle. Datatype, tag and communicator never change.
\<close>

datatype mpi_call =
    MPI_Bcast int int
  | MPI_Send int int int
  | MPI_Recv int int int
  | MPI_Isend int int int nat
  | MPI_Wait nat
  | MPI_Waitall nat

datatype mpi_error = MPI_ERR_COUNT | MPI_ERR_RANK | MPI_ERR_REQUEST

text \<open>
  A request variable is an automatic variable that the program declares without
  initialising it. It holds a handle once \<open>MPI_Isend\<close> has stored one (identified here by
  the position of that call among the calls of the rank), and \<open>MPI_REQUEST_NULL\<close> once a
  wait has completed it.
\<close>

datatype request = Uninitialised | Active nat | MPI_REQUEST_NULL

record proc =
  chunk_size :: int
  calls :: "mpi_call list"
  request :: "request list"
  pending :: "nat list"
  aborted :: "mpi_error option"

definition start :: "int \<Rightarrow> proc" where
  "start c = \<lparr>chunk_size = c, calls = [], request = [], pending = [], aborted = None\<rparr>"

definition check_count :: "int \<Rightarrow> mpi_error option" where
  "check_count cnt = (if cnt < 0 then Some MPI_ERR_COUNT else None)"

definition check_rank :: "int \<Rightarrow> int \<Rightarrow> mpi_error option" where
  "check_rank num_procs r = (if r < 0 \<or> num_procs \<le> r then Some MPI_ERR_RANK else None)"

definition check_args :: "int \<Rightarrow> int \<Rightarrow> int \<Rightarrow> mpi_error option" where
  "check_args num_procs cnt r =
     (case check_count cnt of Some e \<Rightarrow> Some e | None \<Rightarrow> check_rank num_procs r)"

text \<open>
  Waiting on one request variable. The default error handler of MPI aborts the group, so
  an error ends the process: \<open>aborted\<close> is set and nothing runs after it.
\<close>

definition wait_slot :: "nat \<Rightarrow> proc \<Rightarrow> proc" where
  "wait_slot k st =
     (if aborted st \<noteq> None then st
      else if length (request st) \<le> k then st\<lparr>aborted := Some MPI_ERR_REQUEST\<rparr>
      else case request st ! k of
             Uninitialised \<Rightarrow> st\<lparr>aborted := Some MPI_ERR_REQUEST\<rparr>
           | MPI_REQUEST_NULL \<Rightarrow> st
           | Active h \<Rightarrow> st\<lparr>request := (request st)[k := MPI_REQUEST_NULL],
                              pending := removeAll h (pending st)\<rparr>)"

definition returned :: "mpi_call \<Rightarrow> proc \<Rightarrow> proc" where
  "returned c st = (if aborted st \<noteq> None then st else st\<lparr>calls := calls st @ [c]\<rparr>)"

definition failing :: "mpi_error option \<Rightarrow> proc \<Rightarrow> proc" where
  "failing e st = st\<lparr>aborted := e\<rparr>"

fun mpi :: "int \<Rightarrow> mpi_call \<Rightarrow> proc \<Rightarrow> proc" where
  "mpi num_procs (MPI_Bcast cnt root) st =
     (if aborted st \<noteq> None then st
      else case check_args num_procs cnt root of
             Some e \<Rightarrow> failing (Some e) st
           | None \<Rightarrow> returned (MPI_Bcast cnt root) st)"
| "mpi num_procs (MPI_Send off cnt dest) st =
     (if aborted st \<noteq> None then st
      else case check_args num_procs cnt dest of
             Some e \<Rightarrow> failing (Some e) st
           | None \<Rightarrow> returned (MPI_Send off cnt dest) st)"
| "mpi num_procs (MPI_Recv off cnt src) st =
     (if aborted st \<noteq> None then st
      else case check_args num_procs cnt src of
             Some e \<Rightarrow> failing (Some e) st
           | None \<Rightarrow> returned (MPI_Recv off cnt src) st)"
| "mpi num_procs (MPI_Isend off cnt dest k) st =
     (if aborted st \<noteq> None then st
      else case check_args num_procs cnt dest of
             Some e \<Rightarrow> failing (Some e) st
           | None \<Rightarrow>
               returned (MPI_Isend off cnt dest k)
                 (st\<lparr>request := (request st)[k := Active (length (calls st))],
                     pending := pending st @ [length (calls st)]\<rparr>))"
| "mpi num_procs (MPI_Wait k) st = returned (MPI_Wait k) (wait_slot k st)"
| "mpi num_procs (MPI_Waitall n) st = returned (MPI_Waitall n) (fold wait_slot [0..<n] st)"

subsection \<open>The chunk loop\<close>

text \<open>
  Five branches of \<open>main\<close> share the loop header
  \<^verbatim>\<open>for (j=0; j<NUM_BYTES; j+=chunk_size) { if (j > NUM_BYTES-chunk_size) chunk_size = NUM_BYTES%chunk_size; ... }\<close>
  and differ in the MPI calls of the body, given here as a function of the offset and
  of the chunk size after the boundary test. The loop need not end (a chunk size of 0
  leaves \<open>j\<close> where it is), so it is a partial function: \<open>None\<close> is a run that never
  leaves the loop.
\<close>

definition boundary_test :: "int \<Rightarrow> int \<Rightarrow> proc \<Rightarrow> proc" where
  "boundary_test N j st =
     (if j > N - chunk_size st then st\<lparr>chunk_size := N smod chunk_size st\<rparr> else st)"

definition iteration ::
  "int \<Rightarrow> (int \<Rightarrow> int \<Rightarrow> mpi_call list) \<Rightarrow> int \<Rightarrow> int \<Rightarrow> proc \<Rightarrow> proc" where
  "iteration num_procs body N j st =
     (let st' = boundary_test N j st in fold (mpi num_procs) (body j (chunk_size st')) st')"

partial_function (option) chunk_loop ::
  "int \<Rightarrow> (int \<Rightarrow> int \<Rightarrow> mpi_call list) \<Rightarrow> int \<Rightarrow> int \<Rightarrow> proc \<Rightarrow> proc option" where
  "chunk_loop num_procs body N j st =
     (if aborted st \<noteq> None then Some st
      else if j < N then
        (let st' = iteration num_procs body N j st
         in chunk_loop num_procs body N (j + chunk_size st') st')
      else Some st)"

subsection \<open>The six broadcast implementations\<close>

definition implementation_names :: "string list" where
  "implementation_names =
     [''naive_bcast'', ''default_bcast'', ''ring_bcast'', ''pipelined_ring_bcast'',
      ''asynchronous_pipelined_ring_bcast'', ''asynchronous_pipelined_bintree_bcast'']"

text \<open>The binary tree of the last implementation: the rank a process receives from and
  the ranks it sends to, as the branch computes them.\<close>

definition parent :: "int \<Rightarrow> int" where
  "parent rank = (rank - 1) sdiv 2"

definition children :: "int \<Rightarrow> int \<Rightarrow> int list" where
  "children num_procs rank =
     (if rank * 2 + 1 < num_procs then [rank * 2 + 1] else []) @
     (if rank * 2 + 2 < num_procs then [rank * 2 + 2] else [])"

definition declare_requests :: "nat \<Rightarrow> proc \<Rightarrow> proc" where
  "declare_requests n st = st\<lparr>request := replicate n Uninitialised\<rparr>"

definition naive_body :: "int \<Rightarrow> int \<Rightarrow> int \<Rightarrow> mpi_call list" where
  "naive_body N rank num_procs =
     (if 0 = rank then map (\<lambda>j. MPI_Send 0 N j) [1..num_procs - 1] else [MPI_Recv 0 N 0])"

definition ring_body :: "int \<Rightarrow> int \<Rightarrow> int \<Rightarrow> mpi_call list" where
  "ring_body N rank num_procs =
     (if 0 = rank then [MPI_Send 0 N (rank + 1)]
      else MPI_Recv 0 N (rank - 1) #
           (if rank \<noteq> num_procs - 1 then [MPI_Send 0 N (rank + 1)] else []))"

definition pipelined_ring_body :: "int \<Rightarrow> int \<Rightarrow> int \<Rightarrow> int \<Rightarrow> mpi_call list" where
  "pipelined_ring_body rank num_procs j c =
     (if 0 = rank then [MPI_Send j c (rank + 1)]
      else MPI_Recv j c (rank - 1) #
           (if rank \<noteq> num_procs - 1 then [MPI_Send j c (rank + 1)] else []))"

definition asynchronous_ring_body :: "int \<Rightarrow> int \<Rightarrow> int \<Rightarrow> int \<Rightarrow> mpi_call list" where
  "asynchronous_ring_body rank num_procs j c =
     (if 0 = rank then [MPI_Isend j c (rank + 1) 0]
      else MPI_Recv j c (rank - 1) #
           (if rank \<noteq> num_procs - 1 then [MPI_Isend j c (rank + 1) 0] else []))"

definition bintree_body :: "int \<Rightarrow> int \<Rightarrow> int \<Rightarrow> int \<Rightarrow> mpi_call list" where
  "bintree_body rank num_procs j c =
     (if rank \<noteq> 0 then [MPI_Recv j c (parent rank)] else []) @
     (if rank * 2 + 1 < num_procs then [MPI_Isend j c (rank * 2 + 1) 0] else []) @
     (if rank * 2 + 2 < num_procs then [MPI_Isend j c (rank * 2 + 2) 1] else [])"

text \<open>
  The broadcast phase of \<open>main\<close> (the chain of \<open>strcmp\<close> tests on the implementation
  name), for the process \<open>rank\<close> of \<open>num_procs\<close> and a buffer of \<open>N\<close> bytes.
\<close>

definition bcast_phase :: "string \<Rightarrow> int \<Rightarrow> int \<Rightarrow> int \<Rightarrow> proc \<Rightarrow> proc option" where
  "bcast_phase name N rank num_procs st =
     (if name = ''default_bcast'' then Some (mpi num_procs (MPI_Bcast N 0) st)
      else if name = ''naive_bcast'' then
        Some (fold (mpi num_procs) (naive_body N rank num_procs) st)
      else if name = ''ring_bcast'' then
        Some (fold (mpi num_procs) (ring_body N rank num_procs) st)
      else if name = ''pipelined_ring_bcast'' then
        chunk_loop num_procs (pipelined_ring_body rank num_procs) N 0 st
      else if name = ''asynchronous_pipelined_ring_bcast'' then
        (if 0 = rank then
           chunk_loop num_procs (asynchronous_ring_body rank num_procs) N 0
             (declare_requests 1 st)
         else do {
           st' \<leftarrow> chunk_loop num_procs (asynchronous_ring_body rank num_procs) N 0
                   (declare_requests 1 st);
           Some (mpi num_procs (MPI_Wait 0) st')
         })
      else if name = ''asynchronous_pipelined_bintree_bcast'' then
        do {
          st' \<leftarrow> chunk_loop num_procs (bintree_body rank num_procs) N 0
                  (declare_requests 2 st);
          Some (mpi num_procs (MPI_Waitall 2) st')
        }
      else Some st)"

subsection \<open>Command line\<close>

text \<open>
  \<open>program_abort\<close> prints its message (and the usage text when it is given the
  executable's name), aborts the group and exits: the model keeps whether the usage is
  printed and the message.
\<close>

datatype failure = Program_abort bool string | MPI_Abort mpi_error

text \<open>
  \<open>sscanf(s, "%d", &chunk_size)\<close> of the C library: white space is skipped, then an
  optional sign and a non-empty run of decimal digits are read; the result is the number
  of items stored, 1 or 0 (EOF on an empty string). The digits are converted as \<open>strtol\<close>
  converts them, to a 64-bit \<open>long\<close> that saturates at \<open>LONG_MIN\<close> and \<open>LONG_MAX\<close>, and
  the \<open>int\<close> that is stored keeps the low 32 bits in two's complement: \<open>-c 2147483648\<close>
  sets \<open>chunk_size\<close> to \<open>-2147483648\<close>. (The C standard leaves a value that does not
  fit undefined; this is what the GNU C library does.)
\<close>

definition isspace :: "char \<Rightarrow> bool" where
  "isspace c = (c \<in> set [CHR '' '', CHR 0x09, CHR 0x0A, CHR 0x0B, CHR 0x0C, CHR 0x0D])"

definition isdigit :: "char \<Rightarrow> bool" where
  "isdigit c = ((48 :: nat) \<le> of_char c \<and> of_char c \<le> (57 :: nat))"

definition strtol_digits :: "string \<Rightarrow> int" where
  "strtol_digits ds =
     foldl (\<lambda>a d. min (2 ^ 63) (10 * a + (int (of_char d) - 48))) 0 ds"

definition strtol :: "bool \<Rightarrow> string \<Rightarrow> int" where
  "strtol negative ds =
     (if negative then - strtol_digits ds else min (2 ^ 63 - 1) (strtol_digits ds))"

definition to_int :: "int \<Rightarrow> int" where
  "to_int v = (v + 2 ^ 31) mod 2 ^ 32 - 2 ^ 31"

definition sscanf_d :: "string \<Rightarrow> int option" where
  "sscanf_d s =
     (let t = dropWhile isspace s;
          negative = (t \<noteq> [] \<and> hd t = CHR ''-'');
          u = (if t \<noteq> [] \<and> (hd t = CHR ''-'' \<or> hd t = CHR ''+'') then tl t else t);
          ds = takeWhile isdigit u
      in if ds = [] then None else Some (to_int (strtol negative ds)))"

text \<open>
  The loop \<open>for (i=1; i < argc; i++)\<close> over the arguments, as a recursion over
  \<open>argv[i], ..., argv[argc-1]\<close>: \<open>i+1 >= argc\<close> is the rest being empty.
\<close>

fun chunk_size_argument :: "string list \<Rightarrow> int \<Rightarrow> failure + int" where
  "chunk_size_argument [] c = Inr c"
| "chunk_size_argument (a # rest) c =
     (if a = ''-c'' then
        (case rest of
           [] \<Rightarrow> Inl (Program_abort True ''Invalid <chunk size> argument\<newline>'')
         | b # _ \<Rightarrow>
             (case sscanf_d b of
                None \<Rightarrow> Inl (Program_abort True ''Invalid <chunk size> argument\<newline>'')
              | Some v \<Rightarrow> chunk_size_argument rest v))
      else chunk_size_argument rest c)"

definition parse_arguments :: "string list \<Rightarrow> failure + string \<times> int" where
  "parse_arguments argv =
     (if length argv < 2 then
        Inl (Program_abort True ''Missing <bcast implementation name> argument\<newline>'')
      else
        let bcast_implementation_name = argv ! 1 in
        if bcast_implementation_name \<notin> set implementation_names then
          Inl (Program_abort False
                 (''Unknown bcast implementation name '' @ [CHR 0x27] @
                  bcast_implementation_name @ [CHR 0x27] @ ''\<newline>''))
        else
          (case chunk_size_argument (tl argv) NUM_BYTES of
             Inl f \<Rightarrow> Inl f
           | Inr c \<Rightarrow> Inr (bcast_implementation_name, c)))"

text \<open>A list of arguments in which every \<open>-c\<close> is followed by an argument that
  \<open>sscanf\<close> reads.\<close>

definition well_formed :: "string list \<Rightarrow> bool" where
  "well_formed args \<longleftrightarrow>
     (\<forall>i < length args. args ! i = ''-c'' \<longrightarrow>
        Suc i < length args \<and> sscanf_d (args ! Suc i) \<noteq> None)"

subsection \<open>Buffer and checksum\<close>

text \<open>
  \<open>char\<close> is taken as signed, as on the platforms the tutorial targets, and \<open>int\<close>
  addition as two's complement on 32 bits. \<open>fill\<close> is the loop that seeds the buffer of
  rank 0 and sums it on the way, over the values \<open>random()\<close> returns; \<open>local_checksum\<close>
  is the sum the other ranks compute over what they received.
\<close>

type_synonym byte = "8 word"

fun fill :: "int list \<Rightarrow> byte list \<times> 32 word \<Rightarrow> byte list \<times> 32 word" where
  "fill [] (buffer, checksum) = (buffer, checksum)"
| "fill (r # rs) (buffer, checksum) =
     fill rs (buffer @ [word_of_int (r smod 256)],
              checksum + scast (word_of_int (r smod 256) :: byte))"

definition fill_buffer :: "int \<Rightarrow> (nat \<Rightarrow> int) \<Rightarrow> byte list \<times> 32 word" where
  "fill_buffer N random = fill (map random [0..<nat N]) ([], 0)"

definition local_checksum :: "byte list \<Rightarrow> 32 word" where
  "local_checksum buffer = foldl (\<lambda>checksum b. checksum + scast b) 0 buffer"

text \<open>
  What a call that has returned leaves in the buffer of the process, given the bytes
  \<open>data\<close> the library delivered (at most \<open>cnt\<close> of them are stored). Only a receive and,
  away from its root, the collective broadcast store into the buffer (\<open>receives\<close>). No
  test of the broadcast phase reads the buffer, so the calls a rank issues do not depend
  on it. After the broadcast phase rank 0 receives checksums into a variable of their own.
\<close>

fun receives :: "int \<Rightarrow> mpi_call \<Rightarrow> bool" where
  "receives rank (MPI_Recv off cnt src) = True"
| "receives rank (MPI_Bcast cnt root) = (rank \<noteq> root)"
| "receives rank _ = False"

definition store :: "int \<Rightarrow> int \<Rightarrow> byte list \<Rightarrow> byte list \<Rightarrow> byte list" where
  "store off cnt data buffer =
     take (nat off) buffer @ take (nat cnt) data @
     drop (nat off + length (take (nat cnt) data)) buffer"

fun buffer_after :: "int \<Rightarrow> (mpi_call \<times> byte list) list \<Rightarrow> byte list \<Rightarrow> byte list" where
  "buffer_after rank [] buffer = buffer"
| "buffer_after rank ((MPI_Recv off cnt src, data) # rest) buffer =
     buffer_after rank rest (store off cnt data buffer)"
| "buffer_after rank ((MPI_Bcast cnt root, data) # rest) buffer =
     buffer_after rank rest (if rank = root then buffer else store 0 cnt data buffer)"
| "buffer_after rank (_ # rest) buffer = buffer_after rank rest buffer"

subsection \<open>Checksum collection and report at the root\<close>

record harness =
  all_ok :: bool
  inbox :: "32 word list"
  stderr :: "string list"
  stdout :: "string list"

text \<open>
  The loop \<open>for (j = 1; j < num_procs; j++)\<close> at rank 0, by the number of iterations
  left. \<open>inbox\<close> holds the checksum messages still to be received, in the order the library
  hands them over; with none there, \<open>MPI_Recv\<close> does not return (\<open>None\<close>).
\<close>

fun collect :: "32 word \<Rightarrow> nat \<Rightarrow> harness \<Rightarrow> harness option" where
  "collect checksum 0 h = Some h"
| "collect checksum (Suc n) h =
     (case inbox h of
        [] \<Rightarrow> None
      | received_checksum # rest \<Rightarrow>
          if all_ok h \<and> checksum \<noteq> received_checksum then
            Some (h\<lparr>all_ok := False, inbox := rest,
                    stderr := stderr h @ [[CHR 0x09] @ ''** Non-matching checksum! **\<newline>'']\<rparr>)
          else collect checksum n (h\<lparr>inbox := rest\<rparr>))"

fun decimal :: "nat \<Rightarrow> string" where
  "decimal n =
     (if n < 10 then [''0123456789'' ! n]
      else decimal (n div 10) @ [''0123456789'' ! (n mod 10)])"

declare decimal.simps [simp del]

definition printf_d :: "int \<Rightarrow> string" where
  "printf_d i = (if i < 0 then CHR ''-'' # decimal (nat (- i)) else decimal (nat i))"

text \<open>The elapsed time is a difference of two clock readings; its \<open>%.3lf\<close> rendering is
  an input of the model.\<close>

definition timing_line :: "string \<Rightarrow> int \<Rightarrow> string \<Rightarrow> string" where
  "timing_line name c elapsed =
     ''implementation: '' @ name @ '' | chunksize: '' @ printf_d c @ '' |  time: '' @
     elapsed @ '' seconds\<newline>''"

definition report :: "int \<Rightarrow> string \<Rightarrow> int \<Rightarrow> string \<Rightarrow> harness \<Rightarrow> harness" where
  "report rank name c elapsed h =
     (if 0 = rank \<and> all_ok h then h\<lparr>stdout := stdout h @ [timing_line name c elapsed]\<rparr>
      else h)"

text \<open>
  \<open>main\<close> as rank 0 runs it, from the command line to the report: \<open>checksum\<close> is the
  reference checksum of the filled buffer, \<open>msgs\<close> the checksum messages of the other
  ranks.
\<close>

definition main_root ::
  "string list \<Rightarrow> int \<Rightarrow> 32 word \<Rightarrow> 32 word list \<Rightarrow> string \<Rightarrow> (failure + proc \<times> harness) option" where
  "main_root argv num_procs checksum msgs elapsed =
     (case parse_arguments argv of
        Inl f \<Rightarrow> Some (Inl f)
      | Inr (name, c) \<Rightarrow>
          do {
            st \<leftarrow> bcast_phase name NUM_BYTES 0 num_procs (start c);
            case aborted st of
              Some e \<Rightarrow> Some (Inl (MPI_Abort e))
            | None \<Rightarrow>
                do {
                  h \<leftarrow> collect checksum (nat (num_procs - 1))
                         \<lparr>all_ok = True, inbox = msgs, stderr = [], stdout = []\<rparr>;
                  Some (Inr (st, report 0 name (chunk_size st) elapsed h))
                }
          })"

subsection \<open>The chunk plan\<close>

text \<open>
  The chunk plan is read off the run of the loop: the offset and count of each call. The
  plan of a buffer of \<open>N\<close> bytes and a chunk size \<open>c\<close> is taken from the sends of rank 0
  in the pipelined ring of a group of two.
\<close>

fun extent :: "mpi_call \<Rightarrow> int \<times> int" where
  "extent (MPI_Bcast cnt root) = (0, cnt)"
| "extent (MPI_Send off cnt dest) = (off, cnt)"
| "extent (MPI_Recv off cnt src) = (off, cnt)"
| "extent (MPI_Isend off cnt dest k) = (off, cnt)"
| "extent (MPI_Wait k) = (0, 0)"
| "extent (MPI_Waitall n) = (0, 0)"

definition chunk_plan :: "int \<Rightarrow> int \<Rightarrow> (int \<times> int) list option" where
  "chunk_plan N c =
     map_option (\<lambda>st. map extent (calls st)) (bcast_phase ''pipelined_ring_bcast'' N 0 2 (start c))"

text \<open>\<open>covers a plan b\<close>: the chunks of the plan follow each other from \<open>a\<close> to \<open>b\<close>, each
  starting where the one before ends, and none is empty.\<close>

fun covers :: "int \<Rightarrow> (int \<times> int) list \<Rightarrow> int \<Rightarrow> bool" where
  "covers a [] b = (a = b)"
| "covers a ((off, len) # rest) b = (off = a \<and> 0 < len \<and> covers (a + len) rest b)"

text \<open>One pass through the loop body for a chunk of the plan, once the boundary test has
  fixed its length; used to unroll the loop along a plan.\<close>

definition chunk_step ::
  "int \<Rightarrow> (int \<Rightarrow> int \<Rightarrow> mpi_call list) \<Rightarrow> int \<times> int \<Rightarrow> proc \<Rightarrow> proc" where
  "chunk_step np body chunk st =
     (if aborted st \<noteq> None then st
      else fold (mpi np) (body (fst chunk) (snd chunk)) (st\<lparr>chunk_size := snd chunk\<rparr>))"

section \<open>Properties\<close>

subsection \<open>The loop ends for a positive chunk size\<close>

lemma smod_nonneg: "0 \<le> a \<Longrightarrow> 0 < b \<Longrightarrow> (a::int) smod b = a mod b"
  by (simp add: smod_int_alt_def sgn_if)

lemma wait_slot_chunk_size [simp]: "chunk_size (wait_slot k st) = chunk_size st"
  by (simp add: wait_slot_def split: request.splits)

lemma fold_wait_slot_chunk_size [simp]: "chunk_size (fold wait_slot ks st) = chunk_size st"
  by (induction ks arbitrary: st) simp_all

lemma returned_chunk_size [simp]: "chunk_size (returned c st) = chunk_size st"
  by (simp add: returned_def)

lemma mpi_chunk_size [simp]: "chunk_size (mpi np c st) = chunk_size st"
  by (cases c) (simp_all add: failing_def split: option.splits)

lemma fold_mpi_chunk_size [simp]: "chunk_size (fold (mpi np) cs st) = chunk_size st"
  by (induction cs arbitrary: st) simp_all

lemma iteration_chunk_size:
  "chunk_size (iteration np body N j st) =
     (if j > N - chunk_size st then N smod chunk_size st else chunk_size st)"
  by (simp add: iteration_def boundary_test_def Let_def)

lemma remainder_at_boundary:
  assumes "1 \<le> (c::int)" "c dvd j" "j < N" "N - c < j"
  shows "N mod c = N - j"
proof -
  have "N mod c = (j + (N - j)) mod c" by simp
  also have "\<dots> = (N - j) mod c"
    using assms(2) by (metis dvd_imp_mod_0 mod_add_left_eq add_0)
  also have "\<dots> = N - j"
    using assms by (simp add: mod_pos_pos_trivial)
  finally show ?thesis .
qed

lemma chunk_loop_done: "\<not> j < N \<Longrightarrow> chunk_loop np body N j st = Some st"
  by (subst chunk_loop.simps) simp

lemma chunk_loop_terminates:
  assumes "1 \<le> chunk_size st" "0 \<le> j" "chunk_size st dvd j"
  shows "\<exists>st'. chunk_loop np body N j st = Some st'"
  using assms
proof (induction "nat (N - j)" arbitrary: j st rule: less_induct)
  case less
  let ?c = "chunk_size st"
  let ?st' = "iteration np body N j st"
  show ?case
  proof (cases "aborted st \<noteq> None \<or> \<not> j < N")
    case True
    then show ?thesis by (subst chunk_loop.simps) auto
  next
    case False
    then have run: "chunk_loop np body N j st = chunk_loop np body N (j + chunk_size ?st') ?st'"
      by (subst chunk_loop.simps) (simp add: Let_def)
    show ?thesis
    proof (cases "j > N - ?c")
      case True
      with False less.prems have "chunk_size ?st' = N - j"
        by (simp add: iteration_chunk_size smod_nonneg remainder_at_boundary)
      then show ?thesis using run by (simp add: chunk_loop_done)
    next
      case inner: False
      then have c': "chunk_size ?st' = ?c" by (simp add: iteration_chunk_size)
      have "nat (N - (j + ?c)) < nat (N - j)" using False less.prems by simp
      moreover have "chunk_size ?st' dvd j + ?c" using c' less.prems by simp
      moreover have "1 \<le> chunk_size ?st'" "0 \<le> j + ?c" using c' less.prems by simp_all
      ultimately have "\<exists>st'. chunk_loop np body N (j + ?c) ?st' = Some st'"
        using less.hyps by blast
      then show ?thesis using run c' by simp
    qed
  qed
qed


lemma chunk_step_aborted: "aborted st \<noteq> None \<Longrightarrow> fold (chunk_step np body) plan st = st"
  by (induction plan) (simp_all add: chunk_step_def)

lemma iteration_chunk_step:
  "aborted st = None \<Longrightarrow>
   iteration np body N j st =
     chunk_step np body
       (j, if j > N - chunk_size st then N smod chunk_size st else chunk_size st) st"
  by (simp add: iteration_def boundary_test_def chunk_step_def)

lemma chunk_loop_plan:
  assumes "1 \<le> chunk_size st" "0 \<le> j" "j \<le> N" "chunk_size st dvd j"
  shows "\<exists>plan. covers j plan N \<and>
           (\<forall>(off, len) \<in> set plan.
              chunk_size st dvd off \<and>
              len = (if off > N - chunk_size st then N mod chunk_size st else chunk_size st)) \<and>
           chunk_loop np body N j st = Some (fold (chunk_step np body) plan st)"
  using assms
proof (induction "nat (N - j)" arbitrary: j st rule: less_induct)
  case less
  let ?c = "chunk_size st"
  let ?st' = "iteration np body N j st"
  show ?case
  proof (cases "j < N")
    case False
    with less.prems have "j = N" by simp
    then have "covers j [] N" by simp
    moreover have "chunk_loop np body N j st = Some (fold (chunk_step np body) [] st)"
      using False by (simp add: chunk_loop_done)
    moreover have "\<forall>(off, len) \<in> set [].
                     ?c dvd off \<and> len = (if off > N - ?c then N mod ?c else ?c)" by simp
    ultimately show ?thesis by blast
  next
    case True
    show ?thesis
    proof (cases "j > N - ?c")
      case boundary: True
      have rem: "N smod ?c = N - j" "N mod ?c = N - j"
        using True boundary less.prems by (simp_all add: smod_nonneg remainder_at_boundary)
      have "chunk_loop np body N j st = Some (fold (chunk_step np body) [(j, N - j)] st)"
      proof (cases "aborted st = None")
        case True
        then have "?st' = chunk_step np body (j, N - j) st"
          using boundary rem by (simp add: iteration_chunk_step)
        moreover have "chunk_size ?st' = N - j"
          using boundary rem by (simp add: iteration_chunk_size)
        moreover have "chunk_loop np body N j st = chunk_loop np body N (j + chunk_size ?st') ?st'"
          using True \<open>j < N\<close> by (subst chunk_loop.simps) (simp add: Let_def)
        ultimately show ?thesis by (simp add: chunk_loop_done)
      next
        case False
        then show ?thesis
          by (subst chunk_loop.simps) (simp add: chunk_step_def)
      qed
      moreover have "covers j [(j, N - j)] N" using True by simp
      moreover have "\<forall>(off, len) \<in> set [(j, N - j)].
                        ?c dvd off \<and> len = (if off > N - ?c then N mod ?c else ?c)"
        using boundary rem less.prems by simp
      ultimately show ?thesis by blast
    next
      case inner: False
      have c': "chunk_size ?st' = ?c" using inner by (simp add: iteration_chunk_size)
      have "nat (N - (j + ?c)) < nat (N - j)" using True less.prems by simp
      moreover have "1 \<le> chunk_size ?st'" "0 \<le> j + ?c" "j + ?c \<le> N"
        "chunk_size ?st' dvd j + ?c"
        using c' inner less.prems by simp_all
      ultimately obtain rest where
        rest: "covers (j + ?c) rest N"
          "\<forall>(off, len) \<in> set rest.
              chunk_size ?st' dvd off \<and>
              len = (if off > N - chunk_size ?st' then N mod chunk_size ?st' else chunk_size ?st')"
          "chunk_loop np body N (j + ?c) ?st' = Some (fold (chunk_step np body) rest ?st')"
        using less.hyps [of "j + ?c" ?st'] by blast
      have "chunk_loop np body N j st = Some (fold (chunk_step np body) ((j, ?c) # rest) st)"
      proof (cases "aborted st = None")
        case True
        then have "?st' = chunk_step np body (j, ?c) st"
          using inner by (simp add: iteration_chunk_step)
        moreover have "chunk_loop np body N j st = chunk_loop np body N (j + chunk_size ?st') ?st'"
          using True \<open>j < N\<close> by (subst chunk_loop.simps) (simp add: Let_def)
        ultimately show ?thesis using rest(3) c' by simp
      next
        case False
        then have "fold (chunk_step np body) ((j, ?c) # rest) st = st"
          by (rule chunk_step_aborted)
        moreover have "chunk_loop np body N j st = Some st"
          using False by (subst chunk_loop.simps) simp
        ultimately show ?thesis by (simp only:)
      qed
      moreover have "covers j ((j, ?c) # rest) N" using rest(1) less.prems by simp
      moreover have "\<forall>(off, len) \<in> set ((j, ?c) # rest).
                        ?c dvd off \<and> len = (if off > N - ?c then N mod ?c else ?c)"
        using rest(2) inner less.prems unfolding c' by simp
      ultimately show ?thesis by blast
    qed
  qed
qed

lemma covers_sum: "covers a plan b \<Longrightarrow> sum_list (map snd plan) = b - a"
  by (induction a plan b rule: covers.induct) auto

lemma covers_positive: "covers a plan b \<Longrightarrow> \<forall>(off, len) \<in> set plan. 0 < len"
  by (induction a plan b rule: covers.induct) auto

lemma covers_lower: "covers a plan b \<Longrightarrow> \<forall>(off, len) \<in> set plan. a \<le> off"
  by (induction a plan b rule: covers.induct) fastforce+

lemma covers_increasing: "covers a plan b \<Longrightarrow> sorted_wrt (<) (map fst plan)"
proof (induction a plan b rule: covers.induct)
  case (2 a off len rest b)
  from 2 have "covers (a + len) rest b" by simp
  then have "\<forall>(off', len') \<in> set rest. a + len \<le> off'" by (rule covers_lower)
  with 2 show ?case by fastforce
qed simp

subsection \<open>The chunk plan partitions the buffer\<close>

lemma pipelined_root_steps:
  assumes "aborted st = None" "\<forall>(off, len) \<in> set plan. 0 \<le> len"
  shows "fold (chunk_step 2 (pipelined_ring_body 0 2)) plan st =
           st\<lparr>chunk_size := last (chunk_size st # map snd plan),
              calls := calls st @ map (\<lambda>(off, len). MPI_Send off len 1) plan\<rparr>"
  using assms
proof (induction plan arbitrary: st)
  case Nil
  then show ?case by simp
next
  case (Cons chunk plan)
  obtain off len where chunk: "chunk = (off, len)" by (cases chunk)
  let ?st = "st\<lparr>chunk_size := len, calls := calls st @ [MPI_Send off len 1]\<rparr>"
  have step: "chunk_step 2 (pipelined_ring_body 0 2) chunk st = ?st"
    using Cons.prems chunk
    by (simp add: chunk_step_def pipelined_ring_body_def check_args_def check_count_def
        check_rank_def returned_def)
  have "fold (chunk_step 2 (pipelined_ring_body 0 2)) plan ?st =
          ?st\<lparr>chunk_size := last (chunk_size ?st # map snd plan),
              calls := calls ?st @ map (\<lambda>(off, len). MPI_Send off len 1) plan\<rparr>"
    using Cons.prems by (intro Cons.IH) simp_all
  then show ?case using step chunk by simp
qed

lemma extent_sends: "map (extent \<circ> (\<lambda>(off, len). MPI_Send off len d)) plan = plan"
  by (induction plan) auto

lemma chunk_plan_example: "chunk_plan 16 5 = Some [(0, 5), (5, 5), (10, 5), (15, 1)]"
  by (simp add: chunk_plan_def bcast_phase_def start_def chunk_loop.simps iteration_def
      boundary_test_def pipelined_ring_body_def check_args_def check_count_def check_rank_def
      returned_def smod_nonneg)

text \<open>
  Claim C3. For every buffer length \<open>N \<ge> 1\<close> and chunk size \<open>c \<ge> 1\<close> the loop ends and its
  chunks come in increasing offset order, each starting where the one before ends, from 0
  to \<open>N\<close>: no gap, no overlap, every length positive, the lengths summing to \<open>N\<close>. Each
  offset is a multiple of \<open>c\<close>, and the length is \<open>c\<close> unless the offset is beyond
  \<open>N - c\<close>, where it is \<open>N mod c\<close>. For 16 bytes in chunks of 5 the plan is
  \<open>[(0,5),(5,5),(10,5),(15,1)]\<close>.
\<close>

theorem chunk_plan_partitions_buffer:
  "(1 \<le> N \<and> 1 \<le> c \<longrightarrow>
      (\<exists>plan. chunk_plan N c = Some plan \<and> covers 0 plan N \<and>
              sorted_wrt (<) (map fst plan) \<and> sum_list (map snd plan) = N \<and>
              (\<forall>(off, len) \<in> set plan.
                 0 < len \<and> c dvd off \<and> len = (if off > N - c then N mod c else c)))) \<and>
   chunk_plan 16 5 = Some [(0, 5), (5, 5), (10, 5), (15, 1)]"
proof (intro conjI impI)
  assume "1 \<le> N \<and> 1 \<le> c"
  then have "1 \<le> chunk_size (start c)" "0 \<le> (0::int)" "0 \<le> N" "chunk_size (start c) dvd 0"
    by (simp_all add: start_def)
  then obtain plan where
    plan: "covers 0 plan N"
      "\<forall>(off, len) \<in> set plan. chunk_size (start c) dvd off \<and>
         len = (if off > N - chunk_size (start c) then N mod chunk_size (start c)
                else chunk_size (start c))"
      "chunk_loop 2 (pipelined_ring_body 0 2) N 0 (start c) =
         Some (fold (chunk_step 2 (pipelined_ring_body 0 2)) plan (start c))"
    using chunk_loop_plan [of "start c" 0 N 2 "pipelined_ring_body 0 2"] by blast
  have pos: "\<forall>(off, len) \<in> set plan. 0 < len" using plan(1) by (rule covers_positive)
  then have "\<forall>(off, len) \<in> set plan. 0 \<le> len" by fastforce
  then have "calls (fold (chunk_step 2 (pipelined_ring_body 0 2)) plan (start c)) =
               map (\<lambda>(off, len). MPI_Send off len 1) plan"
    by (simp add: pipelined_root_steps start_def)
  then have "chunk_plan N c = Some plan"
    using plan(3) by (simp add: chunk_plan_def bcast_phase_def extent_sends)
  moreover have "sorted_wrt (<) (map fst plan)" using plan(1) by (rule covers_increasing)
  moreover have "sum_list (map snd plan) = N" using covers_sum [OF plan(1)] by simp
  moreover have "\<forall>(off, len) \<in> set plan.
                   0 < len \<and> c dvd off \<and> len = (if off > N - c then N mod c else c)"
    using pos plan(2) by (fastforce simp: start_def)
  ultimately show "\<exists>plan. chunk_plan N c = Some plan \<and> covers 0 plan N \<and>
              sorted_wrt (<) (map fst plan) \<and> sum_list (map snd plan) = N \<and>
              (\<forall>(off, len) \<in> set plan.
                 0 < len \<and> c dvd off \<and> len = (if off > N - c then N mod c else c))"
    using plan(1) by blast
next
  show "chunk_plan 16 5 = Some [(0, 5), (5, 5), (10, 5), (15, 1)]"
    by (rule chunk_plan_example)
qed

theorem chunk_plan_partitions_buffer_witness:
  "(1::int) \<le> 7 \<and> (1::int) \<le> 3 \<and>
   (\<exists>plan. chunk_plan 7 3 = Some plan \<and> covers 0 plan 7 \<and> sum_list (map snd plan) = 7)"
  using chunk_plan_partitions_buffer [of 7 3] by auto

subsection \<open>The variable \<open>chunk_size\<close> after the loop\<close>

lemma covers_last:
  "covers a plan b \<Longrightarrow> plan \<noteq> [] \<Longrightarrow> fst (last plan) + snd (last plan) = b"
  by (induction a plan b rule: covers.induct) (auto split: if_splits)

text \<open>
  After the loop the variable \<open>chunk_size\<close> holds the length of the last chunk: for a
  chunk size that does not divide the buffer length, the remainder.
\<close>

lemma chunk_size_after_loop:
  assumes "1 \<le> N" "1 \<le> c" "\<not> c dvd N"
  shows "\<exists>st. bcast_phase ''pipelined_ring_bcast'' N 0 2 (start c) = Some st \<and>
              aborted st = None \<and> chunk_size st = N mod c \<and> chunk_size st \<noteq> c"
proof -
  have "1 \<le> chunk_size (start c)" "0 \<le> (0::int)" "0 \<le> N" "chunk_size (start c) dvd 0"
    using assms by (simp_all add: start_def)
  then obtain plan where
    plan: "covers 0 plan N"
      "\<forall>(off, len) \<in> set plan. chunk_size (start c) dvd off \<and>
         len = (if off > N - chunk_size (start c) then N mod chunk_size (start c)
                else chunk_size (start c))"
      "chunk_loop 2 (pipelined_ring_body 0 2) N 0 (start c) =
         Some (fold (chunk_step 2 (pipelined_ring_body 0 2)) plan (start c))"
    using chunk_loop_plan [of "start c" 0 N 2 "pipelined_ring_body 0 2"] by blast
  let ?st = "fold (chunk_step 2 (pipelined_ring_body 0 2)) plan (start c)"
  have ne: "plan \<noteq> []" using plan(1) assms(1) by auto
  obtain off len where last: "last plan = (off, len)" by (cases "last plan")
  then have mem: "(off, len) \<in> set plan" using ne last_in_set by metis
  have sum: "off + len = N" using covers_last [OF plan(1) ne] last by simp
  have "c dvd off" "len = (if off > N - c then N mod c else c)"
    using plan(2) mem by (auto simp: start_def)
  moreover have "len \<noteq> c"
  proof
    assume "len = c"
    with sum \<open>c dvd off\<close> have "c dvd N" by (metis dvd_add_triv_right_iff)
    with assms(3) show False by simp
  qed
  ultimately have len: "len = N mod c" by (simp split: if_splits)
  have "\<forall>(off, len) \<in> set plan. 0 < len" using plan(1) by (rule covers_positive)
  then have "\<forall>(off, len) \<in> set plan. 0 \<le> len" by fastforce
  then have "?st = (start c)\<lparr>chunk_size := last (chunk_size (start c) # map snd plan),
                     calls := calls (start c) @ map (\<lambda>(off, len). MPI_Send off len 1) plan\<rparr>"
    by (intro pipelined_root_steps) (simp_all add: start_def)
  then have "chunk_size ?st = snd (last plan)" "aborted ?st = None"
    using ne by (simp_all add: last_map start_def)
  then have "chunk_size ?st = N mod c" "aborted ?st = None" "chunk_size ?st \<noteq> c"
    using last len \<open>len \<noteq> c\<close> by simp_all
  then show ?thesis using plan(3) by (simp add: bcast_phase_def)
qed

subsection \<open>The binary tree\<close>

lemma sdiv_nonneg: "0 \<le> a \<Longrightarrow> 0 < b \<Longrightarrow> (a::int) sdiv b = a div b"
  by (simp add: signed_divide_int_def sgn_if)

lemma parent_nonroot: "1 \<le> c \<Longrightarrow> parent c = (c - 1) div 2"
  by (simp add: parent_def sdiv_nonneg)

lemma receive_in_bintree_body:
  "MPI_Recv j len r \<in> set (bintree_body c num_procs j len) \<longleftrightarrow> c \<noteq> 0 \<and> parent c = r"
  by (auto simp: bintree_body_def)

lemma send_in_bintree_body:
  "(\<exists>k. MPI_Isend j len c k \<in> set (bintree_body r num_procs j len)) \<longleftrightarrow>
     c \<in> set (children num_procs r)"
  by (auto simp: bintree_body_def children_def)

text \<open>
  Claim C9, amended. For every group size, every rank \<open>r\<close> and every rank \<open>c\<close> other than
  the root: \<open>c\<close> is one of the children \<open>2r+1\<close>, \<open>2r+2\<close> below \<open>num_procs\<close> exactly when
  \<open>(c-1)/2 = r\<close> in C's division. Rank 0 is left out, as the guard \<open>rank != 0\<close> of the
  code leaves it out. With the guard, for all ranks \<open>r\<close> and \<open>c\<close> of the group, \<open>c\<close>
  receives a chunk from \<open>r\<close> exactly when \<open>r\<close> sends that chunk to \<open>c\<close>.
\<close>

theorem bintree_parent_child:
  "(1 \<le> num_procs \<and> 0 \<le> r \<and> r < num_procs \<and> 1 \<le> c \<and> c < num_procs \<longrightarrow>
      (c \<in> set (children num_procs r) \<longleftrightarrow> parent c = r)) \<and>
   (1 \<le> num_procs \<and> 0 \<le> r \<and> r < num_procs \<and> 0 \<le> c \<and> c < num_procs \<longrightarrow>
      (MPI_Recv j len r \<in> set (bintree_body c num_procs j len) \<longleftrightarrow>
       (\<exists>k. MPI_Isend j len c k \<in> set (bintree_body r num_procs j len))))"
proof (intro conjI impI)
  assume a: "1 \<le> num_procs \<and> 0 \<le> r \<and> r < num_procs \<and> 1 \<le> c \<and> c < num_procs"
  then have "parent c = (c - 1) div 2" by (simp add: parent_nonroot)
  with a show "c \<in> set (children num_procs r) \<longleftrightarrow> parent c = r"
    by (auto simp: children_def)
next
  assume a: "1 \<le> num_procs \<and> 0 \<le> r \<and> r < num_procs \<and> 0 \<le> c \<and> c < num_procs"
  show "MPI_Recv j len r \<in> set (bintree_body c num_procs j len) \<longleftrightarrow>
          (\<exists>k. MPI_Isend j len c k \<in> set (bintree_body r num_procs j len))"
  proof (cases "c = 0")
    case True
    with a show ?thesis
      by (simp add: receive_in_bintree_body send_in_bintree_body children_def)
  next
    case False
    with a have "parent c = (c - 1) div 2" by (simp add: parent_nonroot)
    with a False show ?thesis
      unfolding receive_in_bintree_body send_in_bintree_body
      by (auto simp: children_def)
  qed
qed

theorem bintree_parent_child_witness:
  "(3 \<in> set (children 4 1) \<longleftrightarrow> parent 3 = 1) \<and> parent 3 = 1 \<and>
   (MPI_Recv 0 5 1 \<in> set (bintree_body 3 4 0 5) \<longleftrightarrow>
    (\<exists>k. MPI_Isend 0 5 3 k \<in> set (bintree_body 1 4 0 5))) \<and>
   MPI_Recv 0 5 1 \<in> set (bintree_body 3 4 0 5)"
  using bintree_parent_child [of 4 1 3 0 5]
  by (simp add: parent_def bintree_body_def signed_divide_int_def)

text \<open>Claim C9 as stated fails for \<open>r = c = 0\<close> in a group of one: \<open>(0-1)/2\<close> is 0 in
  C, and rank 0 is not a child of rank 0.\<close>

theorem root_is_its_own_parent_counterexample:
  "\<not> (0 \<in> set (children 1 0) \<longleftrightarrow> parent 0 = 0)"
  by (simp add: parent_def children_def signed_divide_int_def)

subsection \<open>The root only sends\<close>

lemma wait_slot_calls [simp]: "calls (wait_slot k st) = calls st"
  by (simp add: wait_slot_def split: request.splits)

lemma fold_wait_slot_calls [simp]: "calls (fold wait_slot ks st) = calls st"
  by (induction ks arbitrary: st) simp_all

lemma calls_mpi: "set (calls (mpi np c st)) \<subseteq> insert c (set (calls st))"
  by (cases c) (auto simp: returned_def failing_def split: option.splits)

lemma calls_fold_mpi: "set (calls (fold (mpi np) cs st)) \<subseteq> set cs \<union> set (calls st)"
proof (induction cs arbitrary: st)
  case Nil
  then show ?case by simp
next
  case (Cons c cs)
  have "set (calls (fold (mpi np) cs (mpi np c st))) \<subseteq> set cs \<union> set (calls (mpi np c st))"
    by (rule Cons.IH)
  with calls_mpi [of np c st] show ?case by auto
qed

lemma calls_iteration:
  "set (calls (iteration np body N j st)) \<subseteq>
     set (body j (chunk_size (boundary_test N j st))) \<union> set (calls st)"
  using calls_fold_mpi [of np "body j (chunk_size (boundary_test N j st))" "boundary_test N j st"]
  by (simp add: iteration_def Let_def boundary_test_def split: if_splits)

lemma calls_chunk_loop:
  assumes "chunk_loop np body N j st = Some st'" and "\<forall>j c. set (body j c) \<subseteq> A"
  shows "set (calls st') \<subseteq> A \<union> set (calls st)"
proof -
  have "(\<forall>j c. set (body j c) \<subseteq> A) \<longrightarrow> set (calls st') \<subseteq> A \<union> set (calls st)"
  proof (rule chunk_loop.raw_induct
      [where P = "\<lambda>np body N j st st'.
         (\<forall>j c. set (body j c) \<subseteq> A) \<longrightarrow> set (calls st') \<subseteq> A \<union> set (calls st)",
        OF _ assms(1)])
    fix loop :: "int \<Rightarrow> (int \<Rightarrow> int \<Rightarrow> mpi_call list) \<Rightarrow> int \<Rightarrow> int \<Rightarrow> proc \<Rightarrow> proc option"
    fix np body N j st st'
    assume IH: "\<And>np body N j st y. loop np body N j st = Some y \<Longrightarrow>
                  (\<forall>j c. set (body j c) \<subseteq> A) \<longrightarrow> set (calls y) \<subseteq> A \<union> set (calls st)"
    assume eq: "(if aborted st \<noteq> None then Some st
                 else if j < N then
                   (let st' = iteration np body N j st
                    in loop np body N (j + chunk_size st') st')
                 else Some st) = Some st'"
    show "(\<forall>j c. set (body j c) \<subseteq> A) \<longrightarrow> set (calls st') \<subseteq> A \<union> set (calls st)"
    proof
      assume body: "\<forall>j c. set (body j c) \<subseteq> A"
      show "set (calls st') \<subseteq> A \<union> set (calls st)"
      proof (cases "aborted st = None \<and> j < N")
        case False
        with eq have "st' = st" by (auto split: if_splits)
        then show ?thesis by auto
      next
        case True
        let ?st = "iteration np body N j st"
        from True eq have "loop np body N (j + chunk_size ?st) ?st = Some st'"
          by (simp add: Let_def)
        then have "set (calls st') \<subseteq> A \<union> set (calls ?st)"
          using IH body by blast
        moreover have "set (calls ?st) \<subseteq> A \<union> set (calls st)"
          using calls_iteration [of np body N j st] body by blast
        ultimately show ?thesis by blast
      qed
    qed
  qed
  with assms(2) show ?thesis by blast
qed

lemma root_bodies_send_only:
  "\<forall>c \<in> set (naive_body N 0 np). \<not> receives 0 c"
  "\<forall>c \<in> set (ring_body N 0 np). \<not> receives 0 c"
  "\<forall>c \<in> set (pipelined_ring_body 0 np j len). \<not> receives 0 c"
  "\<forall>c \<in> set (asynchronous_ring_body 0 np j len). \<not> receives 0 c"
  "\<forall>c \<in> set (bintree_body 0 np j len). \<not> receives 0 c"
  by (auto simp: naive_body_def ring_body_def pipelined_ring_body_def
      asynchronous_ring_body_def bintree_body_def)

lemma calls_declare_requests [simp]: "calls (declare_requests n st) = calls st"
  by (simp add: declare_requests_def)

lemma root_calls_send_only:
  assumes "bcast_phase name N 0 np (start c) = Some st"
  shows "\<forall>call \<in> set (calls st). \<not> receives 0 call"
proof -
  let ?A = "{call. \<not> receives 0 call}"
  have start: "calls (start c) = []" by (simp add: start_def)
  consider (default) "name = ''default_bcast''" | (naive) "name = ''naive_bcast''"
    | (ring) "name = ''ring_bcast''" | (pipelined) "name = ''pipelined_ring_bcast''"
    | (async) "name = ''asynchronous_pipelined_ring_bcast''"
    | (bintree) "name = ''asynchronous_pipelined_bintree_bcast''"
    | (other) "name \<notin> set implementation_names"
    by (auto simp: implementation_names_def)
  then have "set (calls st) \<subseteq> ?A"
  proof cases
    case default
    with assms have "st = mpi np (MPI_Bcast N 0) (start c)" by (simp add: bcast_phase_def)
    then show ?thesis using calls_mpi [of np "MPI_Bcast N 0" "start c"] start by auto
  next
    case naive
    with assms have "st = fold (mpi np) (naive_body N 0 np) (start c)"
      by (simp add: bcast_phase_def)
    then show ?thesis
      using calls_fold_mpi [of np "naive_body N 0 np" "start c"] start
        root_bodies_send_only(1) [of N np] by auto
  next
    case ring
    with assms have "st = fold (mpi np) (ring_body N 0 np) (start c)"
      by (simp add: bcast_phase_def)
    then show ?thesis
      using calls_fold_mpi [of np "ring_body N 0 np" "start c"] start
        root_bodies_send_only(2) [of N np] by auto
  next
    case pipelined
    with assms have "chunk_loop np (pipelined_ring_body 0 np) N 0 (start c) = Some st"
      by (simp add: bcast_phase_def)
    moreover have "\<forall>j len. set (pipelined_ring_body 0 np j len) \<subseteq> ?A"
      using root_bodies_send_only(3) by auto
    ultimately have "set (calls st) \<subseteq> ?A \<union> set (calls (start c))"
      by (rule calls_chunk_loop)
    then show ?thesis using start by simp
  next
    case async
    with assms have
      "chunk_loop np (asynchronous_ring_body 0 np) N 0 (declare_requests 1 (start c)) = Some st"
      by (simp add: bcast_phase_def)
    moreover have "\<forall>j len. set (asynchronous_ring_body 0 np j len) \<subseteq> ?A"
      using root_bodies_send_only(4) by auto
    ultimately have "set (calls st) \<subseteq> ?A \<union> set (calls (declare_requests 1 (start c)))"
      by (rule calls_chunk_loop)
    then show ?thesis using start by simp
  next
    case bintree
    with assms obtain st' where
      loop: "chunk_loop np (bintree_body 0 np) N 0 (declare_requests 2 (start c)) = Some st'"
      and st: "st = mpi np (MPI_Waitall 2) st'"
      by (auto simp: bcast_phase_def split: bind_splits)
    have "\<forall>j len. set (bintree_body 0 np j len) \<subseteq> ?A"
      using root_bodies_send_only(5) by auto
    with loop have "set (calls st') \<subseteq> ?A \<union> set (calls (declare_requests 2 (start c)))"
      by (rule calls_chunk_loop)
    then show ?thesis using start st calls_mpi [of np "MPI_Waitall 2" st'] by auto
  next
    case other
    with assms have "st = start c"
      by (simp add: bcast_phase_def implementation_names_def)
    then show ?thesis using start by simp
  qed
  then show ?thesis by auto
qed

lemma buffer_after_send_only:
  "\<forall>call \<in> set (map fst deliveries). \<not> receives rank call \<Longrightarrow>
   buffer_after rank deliveries buffer = buffer"
  by (induction rank deliveries buffer rule: buffer_after.induct) auto

lemma bcast_phase_returns:
  assumes "1 \<le> c"
  shows "\<exists>st. bcast_phase name N rank np (start c) = Some st"
proof -
  have loop: "\<exists>st. chunk_loop np body N 0 (declare_requests n (start c)) = Some st"
    "\<exists>st. chunk_loop np body N 0 (start c) = Some st" for body n
    using assms by (auto intro!: chunk_loop_terminates simp: declare_requests_def start_def)
  show ?thesis
    using loop(1) [of "asynchronous_ring_body rank np" 1]
      loop(1) [of "bintree_body rank np" 2] loop(2) [of "pipelined_ring_body rank np"]
    by (auto simp: bcast_phase_def)
qed

text \<open>
  Claim C10. In every implementation and for every group size, no call of rank 0 in the
  broadcast phase stores into its buffer: it issues no receive, and the collective
  broadcast has rank 0 as its root. So whatever the library delivers, the buffer of rank 0
  after the phase is the buffer it filled before. With a chunk size of at least 1 the
  calls of rank 0 come to an end.
\<close>

theorem root_buffer_unchanged:
  "(1 \<le> c \<longrightarrow> (\<exists>st. bcast_phase name N 0 num_procs (start c) = Some st)) \<and>
   (\<forall>st. bcast_phase name N 0 num_procs (start c) = Some st \<longrightarrow>
      (\<forall>call \<in> set (calls st). \<not> receives 0 call) \<and>
      (\<forall>deliveries buffer.
         map fst deliveries = calls st \<longrightarrow> buffer_after 0 deliveries buffer = buffer))"
  using bcast_phase_returns [of c name N 0 num_procs] root_calls_send_only [of name N num_procs c]
  by (simp add: buffer_after_send_only)

theorem root_buffer_unchanged_witness:
  "bcast_phase ''naive_bcast'' 4 0 3 (start 4) =
     Some \<lparr>chunk_size = 4, calls = [MPI_Send 0 4 1, MPI_Send 0 4 2], request = [],
           pending = [], aborted = None\<rparr> \<and>
   \<not> receives 0 (MPI_Send 0 4 1) \<and> \<not> receives 0 (MPI_Send 0 4 2) \<and>
   buffer_after 0 [(MPI_Send 0 4 1, []), (MPI_Send 0 4 2, [])] [1, 2, 3, 4] = [1, 2, 3, 4]"
proof -
  have run: "bcast_phase ''naive_bcast'' 4 0 3 (start 4) =
     Some \<lparr>chunk_size = 4, calls = [MPI_Send 0 4 1, MPI_Send 0 4 2], request = [],
           pending = [], aborted = None\<rparr>"
    by (simp add: bcast_phase_def naive_body_def start_def upto.simps check_args_def
        check_count_def check_rank_def returned_def)
  have "(\<forall>call \<in> set [MPI_Send 0 4 1, MPI_Send 0 4 2]. \<not> receives 0 call) \<and>
        (\<forall>deliveries buffer. map fst deliveries = [MPI_Send 0 4 1, MPI_Send 0 4 2] \<longrightarrow>
           buffer_after 0 deliveries buffer = buffer)"
    using root_buffer_unchanged [of 4 "''naive_bcast''" 4 3] run by simp
  then have "\<not> receives 0 (MPI_Send 0 4 1) \<and> \<not> receives 0 (MPI_Send 0 4 2) \<and>
     buffer_after 0 [(MPI_Send 0 4 1, []), (MPI_Send 0 4 2, [])] [1, 2, 3, 4] = [1, 2, 3, 4]"
    by simp
  with run show ?thesis by simp
qed

subsection \<open>The reference checksum\<close>

text \<open>The checksum rank 0 accumulates while it fills the buffer is the checksum any rank
  computes over an identical buffer.\<close>

lemma local_checksum_snoc:
  "local_checksum (buffer @ [b]) = local_checksum buffer + scast b"
  by (simp add: local_checksum_def)

lemma fill_checksum:
  "fill rs (buffer, checksum) = (buffer', checksum') \<Longrightarrow> checksum = local_checksum buffer \<Longrightarrow>
   checksum' = local_checksum buffer'"
proof (induction rs arbitrary: buffer checksum)
  case Nil
  then show ?case by auto
next
  case (Cons r rs)
  from Cons.prems(1) have
    "fill rs (buffer @ [word_of_int (r smod 256)],
              checksum + scast (word_of_int (r smod 256) :: byte)) = (buffer', checksum')"
    by simp
  moreover have "checksum + scast (word_of_int (r smod 256) :: byte) =
                   local_checksum (buffer @ [word_of_int (r smod 256)])"
    using Cons.prems(2) by (simp add: local_checksum_snoc)
  ultimately show ?case by (rule Cons.IH)
qed

lemma fill_buffer_checksum:
  "snd (fill_buffer N random) = local_checksum (fst (fill_buffer N random))"
  using fill_checksum [of "map random [0..<nat N]" "[]" 0]
  by (cases "fill_buffer N random") (simp add: fill_buffer_def local_checksum_def)

subsection \<open>A chunk size of 0\<close>

lemma chunk_loop_zero_chunk_size:
  assumes "chunk_loop np body N j st = Some st'"
    and "\<forall>j st. aborted st = None \<longrightarrow> aborted (fold (mpi np) (body j 0) st) = None"
  shows "\<not> (chunk_size st = 0 \<and> aborted st = None \<and> j < N)"
proof -
  let ?P = "\<lambda>np' body' N' j' st (st' :: proc).
     np' = np \<and> body' = body \<longrightarrow> \<not> (chunk_size st = 0 \<and> aborted st = None \<and> j' < N')"
  have "?P np body N j st st'"
  proof (rule chunk_loop.raw_induct [where P = ?P, OF _ assms(1)])
    fix loop :: "int \<Rightarrow> (int \<Rightarrow> int \<Rightarrow> mpi_call list) \<Rightarrow> int \<Rightarrow> int \<Rightarrow> proc \<Rightarrow> proc option"
    fix np' body' N j st st'
    assume IH: "\<And>np' body' N j st y. loop np' body' N j st = Some y \<Longrightarrow> ?P np' body' N j st y"
    assume eq: "(if aborted st \<noteq> None then Some st
                 else if j < N then
                   (let st' = iteration np' body' N j st
                    in loop np' body' N (j + chunk_size st') st')
                 else Some st) = Some st'"
    show "?P np' body' N j st st'"
    proof (intro impI notI)
      assume same: "np' = np \<and> body' = body"
      assume inv: "chunk_size st = 0 \<and> aborted st = None \<and> j < N"
      let ?st = "iteration np body N j st"
      have it: "?st = fold (mpi np) (body j 0) st"
        using inv by (simp add: iteration_def boundary_test_def)
      then have inv': "chunk_size ?st = 0 \<and> aborted ?st = None \<and> j < N"
        using inv assms(2) by simp
      from eq inv same have "loop np body N (j + chunk_size ?st) ?st = Some st'"
        by (simp add: Let_def)
      then have "loop np body N j ?st = Some st'" using inv' by simp
      from IH [OF this] inv' show False by simp
    qed
  qed
  then show ?thesis by simp
qed

text \<open>With a chunk size of 0, which the command line accepts, rank 0 of the pipelined
  ring sends empty chunks at offset 0 for ever.\<close>

lemma zero_chunk_size_never_ends:
  assumes "1 \<le> N" "2 \<le> np"
  shows "bcast_phase ''pipelined_ring_bcast'' N 0 np (start 0) = None"
proof (rule ccontr)
  assume "bcast_phase ''pipelined_ring_bcast'' N 0 np (start 0) \<noteq> None"
  then obtain st' where "chunk_loop np (pipelined_ring_body 0 np) N 0 (start 0) = Some st'"
    by (auto simp: bcast_phase_def)
  moreover have "\<forall>j st. aborted st = None \<longrightarrow>
      aborted (fold (mpi np) (pipelined_ring_body 0 np j 0) st) = None"
    using assms(2)
    by (simp add: pipelined_ring_body_def check_args_def check_count_def check_rank_def
        returned_def)
  ultimately have "\<not> (chunk_size (start 0) = 0 \<and> aborted (start 0) = None \<and> 0 < N)"
    by (rule chunk_loop_zero_chunk_size)
  with assms(1) show False by (simp add: start_def)
qed

subsection \<open>Validation of the command line\<close>

lemma well_formed_Cons:
  "well_formed (a # rest) \<longleftrightarrow>
     (a = ''-c'' \<longrightarrow> rest \<noteq> [] \<and> sscanf_d (hd rest) \<noteq> None) \<and> well_formed rest"
proof -
  have "(\<forall>i < Suc (length rest). P i) \<longleftrightarrow> P 0 \<and> (\<forall>i < length rest. P (Suc i))" for P
    by (auto simp: less_Suc_eq_0_disj)
  then show ?thesis
    by (cases rest) (simp_all add: well_formed_def)
qed


lemma chunk_size_argument_Cons:
  "chunk_size_argument (a # rest) c =
     (if a \<noteq> ''-c'' then chunk_size_argument rest c
      else if rest = [] \<or> sscanf_d (hd rest) = None
      then Inl (Program_abort True ''Invalid <chunk size> argument\<newline>'')
      else chunk_size_argument rest (the (sscanf_d (hd rest))))"
  by (cases rest) (simp_all split: option.splits)

lemma chunk_size_argument_accepts:
  "(\<exists>v. chunk_size_argument args c = Inr v) \<longleftrightarrow> well_formed args"
proof (induction args arbitrary: c)
  case Nil
  then show ?case by (simp add: well_formed_def)
next
  case (Cons a rest)
  show ?case
    unfolding chunk_size_argument_Cons well_formed_Cons using Cons.IH by simp
qed

lemma chunk_size_argument_rejects:
  "chunk_size_argument args c = Inl f \<Longrightarrow>
   f = Program_abort True ''Invalid <chunk size> argument\<newline>''"
proof (induction args arbitrary: c)
  case Nil
  then show ?case by simp
next
  case (Cons a rest)
  then show ?case
    unfolding chunk_size_argument_Cons by (simp split: if_splits)
qed


lemma well_formed_tl:
  assumes "argv \<noteq> []"
  shows "well_formed (tl argv) \<longleftrightarrow>
     \<not> (\<exists>i. 1 \<le> i \<and> i < length argv \<and> argv ! i = ''-c'' \<and>
            (Suc i = length argv \<or> sscanf_d (argv ! Suc i) = None))"
proof -
  obtain a args where argv: "argv = a # args" using assms by (cases argv) auto
  have "(\<exists>i. 1 \<le> i \<and> i < Suc (length args) \<and> P i) \<longleftrightarrow> (\<exists>i < length args. P (Suc i))" for P
  proof
    assume "\<exists>i. 1 \<le> i \<and> i < Suc (length args) \<and> P i"
    then obtain i where i: "1 \<le> i" "i < Suc (length args)" "P i" by blast
    then obtain k where "i = Suc k" by (cases i) auto
    with i show "\<exists>i < length args. P (Suc i)" by auto
  next
    assume "\<exists>i < length args. P (Suc i)"
    then show "\<exists>i. 1 \<le> i \<and> i < Suc (length args) \<and> P i" by auto
  qed
  then have "(\<exists>i. 1 \<le> i \<and> i < length argv \<and> argv ! i = ''-c'' \<and>
                (Suc i = length argv \<or> sscanf_d (argv ! Suc i) = None)) \<longleftrightarrow>
             (\<exists>k < length args. args ! k = ''-c'' \<and>
                (Suc k = length args \<or> sscanf_d (args ! Suc k) = None))"
    unfolding argv by simp
  moreover have "well_formed args \<longleftrightarrow>
             \<not> (\<exists>k < length args. args ! k = ''-c'' \<and>
                (Suc k = length args \<or> sscanf_d (args ! Suc k) = None))"
    unfolding well_formed_def by (auto simp: Suc_lessI)
  ultimately show ?thesis by (simp add: argv)
qed

lemmas parse_simps = parse_arguments_def implementation_names_def sscanf_d_def isspace_def
  isdigit_def strtol_digits_def strtol_def to_int_def

lemma sscanf_d_option: "sscanf_d ''-c'' = None"
  by (simp add: sscanf_d_def isspace_def isdigit_def)

text \<open>Values beyond the range of \<open>int\<close>: what is stored is not what was written.\<close>

lemma sscanf_d_out_of_range:
  "sscanf_d ''99999999999'' = Some 1215752191"
  "sscanf_d ''2147483648'' = Some (- 2147483648)"
  by (simp_all add: parse_simps)

lemma to_int_range: "- 2147483648 \<le> to_int v \<and> to_int v \<le> 2147483647"
proof -
  have "0 \<le> (v + 2 ^ 31) mod (2 ^ 32 :: int)" "(v + 2 ^ 31) mod (2 ^ 32 :: int) < 2 ^ 32"
    by simp_all
  then show ?thesis by (simp add: to_int_def)
qed

lemma sscanf_d_range: "sscanf_d s = Some v \<Longrightarrow> - 2147483648 \<le> v \<and> v \<le> 2147483647"
  using to_int_range by (auto simp: sscanf_d_def Let_def split: if_splits)

lemma chunk_size_argument_no_option:
  "''-c'' \<notin> set args \<Longrightarrow> chunk_size_argument args c = Inr c"
  by (induction args) auto

lemma chunk_size_argument_last_option:
  "chunk_size_argument (pre @ ''-c'' # b # post) c = Inr v \<Longrightarrow> ''-c'' \<notin> set post \<Longrightarrow>
   sscanf_d b = Some v"
proof (induction pre arbitrary: c)
  case Nil
  then obtain w where w: "sscanf_d b = Some w"
    by (cases "sscanf_d b") simp_all
  then have "b \<noteq> ''-c''" using sscanf_d_option by auto
  then have "chunk_size_argument (b # post) w = Inr w"
    using Nil.prems(2) by (simp add: chunk_size_argument_no_option)
  with Nil.prems(1) w show ?case by simp
next
  case (Cons a pre)
  let ?rest = "pre @ ''-c'' # b # post"
  have "\<exists>c'. chunk_size_argument ?rest c' = Inr v"
    using Cons.prems(1) unfolding append_Cons chunk_size_argument_Cons [of a ?rest c]
    by (auto split: if_splits)
  then show ?case using Cons.IH Cons.prems(2) by blast
qed

lemma chunk_size_argument_append:
  "chunk_size_argument args c = Inr c' \<Longrightarrow> sscanf_d b = Some v \<Longrightarrow>
   chunk_size_argument (args @ [''-c'', b]) c = Inr v"
proof (induction args arbitrary: c)
  case Nil
  then have "b \<noteq> ''-c''" using sscanf_d_option by auto
  with Nil show ?case by simp
next
  case (Cons a rest)
  show ?case
  proof (cases "a = ''-c''")
    case False
    with Cons.prems have "chunk_size_argument rest c = Inr c'"
      by simp
    then have "chunk_size_argument (rest @ [''-c'', b]) c = Inr v"
      using Cons.prems(2) by (rule Cons.IH)
    with False show ?thesis by simp
  next
    case True
    with Cons.prems(1) obtain w where
      rest: "rest \<noteq> []" "sscanf_d (hd rest) = Some w" "chunk_size_argument rest w = Inr c'"
      by (auto simp: chunk_size_argument_Cons simp del: chunk_size_argument.simps(2)
          split: if_splits)
    from rest(3) have "chunk_size_argument (rest @ [''-c'', b]) w = Inr v"
      using Cons.prems(2) by (rule Cons.IH)
    with True rest(1,2) show ?thesis
      unfolding append_Cons chunk_size_argument_Cons [of a "rest @ [''-c'', b]" c]
      by simp
  qed
qed

lemma parse_arguments_accepted:
  assumes "parse_arguments argv = Inr (name, c)"
  shows "2 \<le> length argv" "name = argv ! 1" "name \<in> set implementation_names"
    "chunk_size_argument (tl argv) NUM_BYTES = Inr c"
  using assms
  by (auto simp: parse_arguments_def Let_def simp del: One_nat_def
      split: if_splits sum.splits)

text \<open>
  Claim C5, amended. With a valid implementation name, the command line is rejected, with
  the abort \<open>Invalid <chunk size> argument\<close>, exactly when some \<open>-c\<close> is the last argument
  or is followed by an argument that \<open>sscanf\<close> cannot read as an integer; otherwise it is
  accepted. The chunk size of an accepted command line is \<open>NUM_BYTES\<close> when there is no
  \<open>-c\<close>, and otherwise the \<open>int\<close> that \<open>sscanf\<close> stores for the argument after the last
  \<open>-c\<close>. That value is not tested: whatever integer is read from an argument, an accepted
  command line extended by \<open>-c\<close> and that argument is accepted with it as chunk size,
  whatever its sign. The only bound is the range of \<open>int\<close>.
\<close>

theorem chunk_size_validation:
  "(2 \<le> length argv \<and> argv ! 1 \<in> set implementation_names \<longrightarrow>
      (if \<exists>i. 1 \<le> i \<and> i < length argv \<and> argv ! i = ''-c'' \<and>
               (Suc i = length argv \<or> sscanf_d (argv ! Suc i) = None)
       then parse_arguments argv =
              Inl (Program_abort True ''Invalid <chunk size> argument\<newline>'')
       else \<exists>c. parse_arguments argv = Inr (argv ! 1, c))) \<and>
   (parse_arguments argv = Inr (name, c) \<longrightarrow>
      (''-c'' \<notin> set (tl argv) \<longrightarrow> c = NUM_BYTES) \<and>
      (\<forall>pre b post. tl argv = pre @ ''-c'' # b # post \<and> ''-c'' \<notin> set post \<longrightarrow>
         sscanf_d b = Some c) \<and>
      (\<forall>b v. sscanf_d b = Some v \<longrightarrow>
         parse_arguments (argv @ [''-c'', b]) = Inr (name, v))) \<and>
   (sscanf_d b = Some v \<longrightarrow> - 2147483648 \<le> v \<and> v \<le> 2147483647)"
proof (intro conjI impI allI)
  assume a: "2 \<le> length argv \<and> argv ! 1 \<in> set implementation_names"
  then have ne: "argv \<noteq> []" by auto
  let ?bad = "\<exists>i. 1 \<le> i \<and> i < length argv \<and> argv ! i = ''-c'' \<and>
               (Suc i = length argv \<or> sscanf_d (argv ! Suc i) = None)"
  have parse: "parse_arguments argv =
      (case chunk_size_argument (tl argv) NUM_BYTES of
         Inl f \<Rightarrow> Inl f | Inr c \<Rightarrow> Inr (argv ! 1, c))"
    using a by (simp add: parse_arguments_def Let_def del: One_nat_def)
  show "if ?bad
        then parse_arguments argv =
               Inl (Program_abort True ''Invalid <chunk size> argument\<newline>'')
        else \<exists>c. parse_arguments argv = Inr (argv ! 1, c)"
  proof (cases ?bad)
    case True
    then have "\<not> well_formed (tl argv)" using well_formed_tl [OF ne] by simp
    then have "\<not> (\<exists>v. chunk_size_argument (tl argv) NUM_BYTES = Inr v)"
      by (simp add: chunk_size_argument_accepts)
    then obtain f where f: "chunk_size_argument (tl argv) NUM_BYTES = Inl f"
      by (cases "chunk_size_argument (tl argv) NUM_BYTES") auto
    then have "f = Program_abort True ''Invalid <chunk size> argument\<newline>''"
      by (rule chunk_size_argument_rejects)
    with f parse True show ?thesis by simp
  next
    case False
    then have "well_formed (tl argv)" using well_formed_tl [OF ne] by simp
    then obtain c where "chunk_size_argument (tl argv) NUM_BYTES = Inr c"
      using chunk_size_argument_accepts by blast
    with parse False show ?thesis by simp
  qed
next
  assume "parse_arguments argv = Inr (name, c)" and "''-c'' \<notin> set (tl argv)"
  then show "c = NUM_BYTES"
    using parse_arguments_accepted(4) [of argv name c]
      chunk_size_argument_no_option [of "tl argv" NUM_BYTES] by simp
next
  fix pre b post
  assume "parse_arguments argv = Inr (name, c)"
    and "tl argv = pre @ ''-c'' # b # post \<and> ''-c'' \<notin> set post"
  then show "sscanf_d b = Some c"
    using parse_arguments_accepted(4) [of argv name c]
      chunk_size_argument_last_option [of pre b post NUM_BYTES c] by simp
next
  fix b v
  assume acc: "parse_arguments argv = Inr (name, c)" and read: "sscanf_d b = Some v"
  note facts = parse_arguments_accepted [OF acc]
  from facts(1) have ne: "argv \<noteq> []" by auto
  have "chunk_size_argument (tl argv @ [''-c'', b]) NUM_BYTES = Inr v"
    using facts(4) read by (rule chunk_size_argument_append)
  moreover have "tl (argv @ [''-c'', b]) = tl argv @ [''-c'', b]" using ne by simp
  moreover have "(argv @ [''-c'', b]) ! 1 = argv ! 1"
    using facts(1) by (simp add: nth_append del: One_nat_def)
  moreover have "2 \<le> length (argv @ [''-c'', b])" using facts(1) by simp
  ultimately show "parse_arguments (argv @ [''-c'', b]) = Inr (name, v)"
    using facts(2,3) by (simp add: parse_arguments_def Let_def del: One_nat_def)
next
  assume "sscanf_d b = Some v"
  then show "- 2147483648 \<le> v" "v \<le> 2147483647" using sscanf_d_range by auto
qed

text \<open>Claim C5 as stated fails: \<open>-c 0\<close> is accepted, and the run reaches the broadcast
  phase with a chunk size of 0.\<close>

theorem zero_chunk_size_accepted_counterexample:
  "parse_arguments [''bcast'', ''pipelined_ring_bcast'', ''-c'', ''0''] =
     Inr (''pipelined_ring_bcast'', 0)"
  by (simp add: parse_simps)

theorem chunk_size_validation_witness:
  "parse_arguments [''bcast'', ''naive_bcast'', ''-c''] =
     Inl (Program_abort True ''Invalid <chunk size> argument\<newline>'') \<and>
   parse_arguments [''bcast'', ''naive_bcast'', ''-c'', ''7'', ''-c'', ''-5''] =
     Inr (''naive_bcast'', - 5) \<and>
   sscanf_d ''-5'' = Some (- 5) \<and>
   parse_arguments ([''bcast'', ''naive_bcast'', ''-c'', ''7'', ''-c'', ''-5''] @ [''-c'', ''0'']) =
     Inr (''naive_bcast'', 0) \<and>
   - 2147483648 \<le> (0::int) \<and> (0::int) \<le> 2147483647"
proof -
  let ?short = "[''bcast'', ''naive_bcast'', ''-c'']"
  let ?argv = "[''bcast'', ''naive_bcast'', ''-c'', ''7'', ''-c'', ''-5'']"
  have name: "''naive_bcast'' \<in> set implementation_names"
    by (simp add: implementation_names_def)
  have valid: "2 \<le> length ?short \<and> ?short ! 1 \<in> set implementation_names"
    using name by simp
  have "1 \<le> (2::nat) \<and> 2 < length ?short \<and> ?short ! 2 = ''-c'' \<and>
        (Suc 2 = length ?short \<or> sscanf_d (?short ! Suc 2) = None)"
    by simp
  then have last: "\<exists>i. 1 \<le> i \<and> i < length ?short \<and> ?short ! i = ''-c'' \<and>
                    (Suc i = length ?short \<or> sscanf_d (?short ! Suc i) = None)"
    by (rule exI)
  have rejected: "parse_arguments ?short =
      Inl (Program_abort True ''Invalid <chunk size> argument\<newline>'')"
    using chunk_size_validation [of ?short] valid last by (simp only: if_True simp_thms)
  have accepted: "parse_arguments ?argv = Inr (''naive_bcast'', - 5)"
    by (simp add: parse_simps)
  have zero: "sscanf_d ''0'' = Some 0" by (simp add: parse_simps)
  have split: "tl ?argv = [''naive_bcast'', ''-c'', ''7''] @ ''-c'' # ''-5'' # [] \<and>
               ''-c'' \<notin> set []"
    by simp
  from chunk_size_validation [of ?argv "''naive_bcast''" "- 5" "''0''" 0] accepted
  have inst:
    "(\<forall>pre b post. tl ?argv = pre @ ''-c'' # b # post \<and> ''-c'' \<notin> set post \<longrightarrow>
        sscanf_d b = Some (- 5))"
    "(\<forall>b v. sscanf_d b = Some v \<longrightarrow>
        parse_arguments (?argv @ [''-c'', b]) = Inr (''naive_bcast'', v))"
    "sscanf_d ''0'' = Some 0 \<longrightarrow> - 2147483648 \<le> (0::int) \<and> (0::int) \<le> 2147483647"
    by blast+
  from inst(1) split have "sscanf_d ''-5'' = Some (- 5)" by blast
  moreover from inst(2) zero
  have "parse_arguments (?argv @ [''-c'', ''0'']) = Inr (''naive_bcast'', 0)" by blast
  moreover from inst(3) zero have "- 2147483648 \<le> (0::int) \<and> (0::int) \<le> 2147483647"
    by blast
  ultimately show ?thesis using rejected accepted by (simp only: simp_thms)
qed

subsection \<open>Runs of the program on given inputs\<close>

lemma two_requests: "[0..<2] = [0, Suc 0]" "replicate 2 x = [x, x]"
  by (simp_all add: upt_rec numeral_2_eq_2)

lemmas run_simps = two_requests bcast_phase_def start_def chunk_loop.simps iteration_def boundary_test_def
  naive_body_def ring_body_def pipelined_ring_body_def asynchronous_ring_body_def
  bintree_body_def declare_requests_def check_args_def check_count_def check_rank_def
  returned_def failing_def wait_slot_def parent_def

text \<open>
  Claim C1. In a group of one process the three ring implementations do not complete the
  broadcast phase: rank 0 sends to rank 1 without testing that it exists, the library
  rejects the rank, and the run is aborted before any buffer can be compared.
\<close>

theorem ring_of_one_aborts:
  "bcast_phase ''ring_bcast'' NUM_BYTES 0 1 (start c) =
     Some \<lparr>chunk_size = c, calls = [], request = [], pending = [],
           aborted = Some MPI_ERR_RANK\<rparr> \<and>
   bcast_phase ''pipelined_ring_bcast'' NUM_BYTES 0 1 (start NUM_BYTES) =
     Some \<lparr>chunk_size = NUM_BYTES, calls = [], request = [], pending = [],
           aborted = Some MPI_ERR_RANK\<rparr> \<and>
   bcast_phase ''asynchronous_pipelined_ring_bcast'' NUM_BYTES 0 1 (start NUM_BYTES) =
     Some \<lparr>chunk_size = NUM_BYTES, calls = [], request = [Uninitialised], pending = [],
           aborted = Some MPI_ERR_RANK\<rparr>"
  by (simp add: run_simps NUM_BYTES_def smod_nonneg)

text \<open>
  Claim C2. The root leaves the collection loop at the first checksum that differs. In a
  group of three with reference checksum 7 and incoming checksums 8 and 7, it receives one
  message of the two, and the second stays unreceived to the end of \<open>main\<close>.
\<close>

theorem collection_stops_at_first_mismatch:
  "collect 7 (nat (3 - 1)) \<lparr>all_ok = True, inbox = [8, 7], stderr = [], stdout = []\<rparr> =
     Some \<lparr>all_ok = False, inbox = [7],
           stderr = [[CHR 0x09] @ ''** Non-matching checksum! **\<newline>''], stdout = []\<rparr> \<and>
   main_root [''bcast'', ''naive_bcast''] 3 7 [8, 7] elapsed =
     Some (Inr (\<lparr>chunk_size = NUM_BYTES,
                  calls = [MPI_Send 0 NUM_BYTES 1, MPI_Send 0 NUM_BYTES 2],
                  request = [], pending = [], aborted = None\<rparr>,
                \<lparr>all_ok = False, inbox = [7],
                  stderr = [[CHR 0x09] @ ''** Non-matching checksum! **\<newline>''],
                  stdout = []\<rparr>))"
  by (simp add: main_root_def parse_simps run_simps NUM_BYTES_def report_def upto.simps
      numeral_2_eq_2)

text \<open>
  Claim C4. Rank 0 of the asynchronous pipelined ring issues its non-blocking sends and
  leaves the broadcast phase without any wait: in a group of two with one chunk its
  send is still pending. In the binary tree with two chunks and two children, the handles
  of the first chunk are overwritten by those of the second, and the final
  \<open>MPI_Waitall\<close> completes the last two sends only.
\<close>

theorem root_leaves_send_pending:
  "bcast_phase ''asynchronous_pipelined_ring_bcast'' NUM_BYTES 0 2 (start NUM_BYTES) =
     Some \<lparr>chunk_size = NUM_BYTES, calls = [MPI_Isend 0 NUM_BYTES 1 0],
           request = [Active 0], pending = [0], aborted = None\<rparr> \<and>
   bcast_phase ''asynchronous_pipelined_bintree_bcast'' NUM_BYTES 0 3 (start 50000000) =
     Some \<lparr>chunk_size = 50000000,
           calls = [MPI_Isend 0 50000000 1 0, MPI_Isend 0 50000000 2 1,
                    MPI_Isend 50000000 50000000 1 0, MPI_Isend 50000000 50000000 2 1,
                    MPI_Waitall 2],
           request = [MPI_REQUEST_NULL, MPI_REQUEST_NULL], pending = [0, 1],
           aborted = None\<rparr>"
  by (simp add: run_simps NUM_BYTES_def smod_nonneg)

text \<open>
  Claim C6. In a group of one process, rank 0 of the ring implementation issues a send
  (to rank 1), and so do the pipelined and the asynchronous ring; the run is aborted for
  the invalid rank and nothing is reported. The naive implementation issues no call there
  and prints its timing line.
\<close>

theorem ring_root_sends_in_group_of_one:
  "ring_body NUM_BYTES 0 1 = [MPI_Send 0 NUM_BYTES 1] \<and>
   main_root [''bcast'', ''ring_bcast''] 1 checksum [] elapsed =
     Some (Inl (MPI_Abort MPI_ERR_RANK)) \<and>
   main_root [''bcast'', ''pipelined_ring_bcast''] 1 checksum [] elapsed =
     Some (Inl (MPI_Abort MPI_ERR_RANK)) \<and>
   main_root [''bcast'', ''asynchronous_pipelined_ring_bcast''] 1 checksum [] elapsed =
     Some (Inl (MPI_Abort MPI_ERR_RANK)) \<and>
   main_root [''bcast'', ''naive_bcast''] 1 checksum [] elapsed =
     Some (Inr (\<lparr>chunk_size = NUM_BYTES, calls = [], request = [], pending = [],
                  aborted = None\<rparr>,
                \<lparr>all_ok = True, inbox = [], stderr = [],
                  stdout = [''implementation: naive_bcast | chunksize: 100000000 |  time: ''
                            @ elapsed @ '' seconds\<newline>'']\<rparr>))"
  by (simp add: main_root_def parse_simps run_simps NUM_BYTES_def smod_nonneg report_def
      timing_line_def printf_d_def decimal.simps upto.simps)

text \<open>
  Claim C7. The last rank of the asynchronous pipelined ring never issues a non-blocking
  send, and then waits on its request variable, which was never assigned. A leaf of the
  binary tree does the same with both request variables in \<open>MPI_Waitall\<close>.
\<close>

theorem wait_on_uninitialised_request:
  "bcast_phase ''asynchronous_pipelined_ring_bcast'' NUM_BYTES 1 2 (start NUM_BYTES) =
     Some \<lparr>chunk_size = NUM_BYTES, calls = [MPI_Recv 0 NUM_BYTES 0],
           request = [Uninitialised], pending = [], aborted = Some MPI_ERR_REQUEST\<rparr> \<and>
   bcast_phase ''asynchronous_pipelined_bintree_bcast'' NUM_BYTES 1 2 (start NUM_BYTES) =
     Some \<lparr>chunk_size = NUM_BYTES, calls = [MPI_Recv 0 NUM_BYTES 0],
           request = [Uninitialised, Uninitialised], pending = [],
           aborted = Some MPI_ERR_REQUEST\<rparr>"
  by (simp add: run_simps NUM_BYTES_def smod_nonneg signed_divide_int_def)

text \<open>
  Claim C8. The timing line prints the variable \<open>chunk_size\<close>, which the boundary test of
  the chunk loop has overwritten with the length of the last chunk. With \<open>-c 30000000\<close>
  and the pipelined ring in a group of two, the consistent run of rank 0 prints
  \<open>chunksize: 10000000\<close>.
\<close>

theorem timing_line_shows_last_chunk_length:
  "main_root [''bcast'', ''pipelined_ring_bcast'', ''-c'', ''30000000''] 2 checksum [checksum]
     elapsed =
     Some (Inr (\<lparr>chunk_size = 10000000,
                  calls = [MPI_Send 0 30000000 1, MPI_Send 30000000 30000000 1,
                           MPI_Send 60000000 30000000 1, MPI_Send 90000000 10000000 1],
                  request = [], pending = [], aborted = None\<rparr>,
                \<lparr>all_ok = True, inbox = [], stderr = [],
                  stdout = [''implementation: pipelined_ring_bcast | chunksize: 10000000 |  time: ''
                            @ elapsed @ '' seconds\<newline>'']\<rparr>))"
  by (simp add: main_root_def parse_simps run_simps NUM_BYTES_def smod_nonneg report_def
      timing_line_def printf_d_def decimal.simps)

end
